theory Spec2Isabelle
  imports Main
begin

section \<open>Token model (dsl.hpp, lines 17-50)\<close>

text \<open>
  A \<open>StringRef\<close> is a pair of pointers into the source buffer. The buffer is a
  \<open>string\<close> (a list of bytes) and a pointer into it is its offset from the start of
  the buffer, so \<open>begin\<close> and \<open>end\<close> are offsets and the text of a reference is
  read off the buffer it points into.
\<close>

record StringRef =
  "begin" :: nat
  "end" :: nat

definition length_ref :: "StringRef \<Rightarrow> nat" where
  "length_ref v = end v - begin v"

definition str :: "string \<Rightarrow> StringRef \<Rightarrow> string" where
  "str buf v = take (end v - begin v) (drop (begin v) buf)"

text \<open>
  \<open>StringRef::operator==(const char *s)\<close>: the lengths agree and \<open>strncmp\<close> over
  \<open>len\<close> bytes finds no difference. The argument is a C string, here the bytes before
  its terminator.
\<close>

definition strref_eq :: "string \<Rightarrow> StringRef \<Rightarrow> string \<Rightarrow> bool" where
  "strref_eq buf v s =
     (let len = length s in length_ref v = len \<and> take len (drop (begin v) buf) = s)"

datatype TokenType = NUMBER | LITERAL | STRING | OPERATOR | SPECIAL

text \<open>
  \<open>line\<close> and \<open>col\<close> are C \<open>int\<close>s that only count up from 0; they are integers here,
  and nothing below depends on an input long enough to overflow them.
\<close>

record Token =
  type :: TokenType
  "value" :: StringRef
  line :: int
  col :: int

definition is_float :: "string \<Rightarrow> Token \<Rightarrow> bool" where
  "is_float buf t = (type t = NUMBER \<and> CHR ''.'' \<in> set (str buf (value t)))"

section \<open>Character classes of the C locale\<close>

text \<open>
  \<open>std::isspace\<close>, \<open>std::isdigit\<close>, \<open>std::isalpha\<close> and \<open>std::isalnum\<close> as the
  default locale defines them, on bytes: no byte above 127 is in any class.
\<close>

definition isspace :: "char \<Rightarrow> bool" where
  "isspace c = (c = CHR 0x20 \<or> c = CHR 0x09 \<or> c = CHR 0x0A \<or> c = CHR 0x0B \<or> c = CHR 0x0C
     \<or> c = CHR 0x0D)"

definition isdigit :: "char \<Rightarrow> bool" where
  "isdigit c = (let n = (of_char c :: nat) in 48 \<le> n \<and> n \<le> 57)"

definition isalpha :: "char \<Rightarrow> bool" where
  "isalpha c = (let n = (of_char c :: nat) in (65 \<le> n \<and> n \<le> 90) \<or> (97 \<le> n \<and> n \<le> 122))"

definition isalnum :: "char \<Rightarrow> bool" where
  "isalnum c = (isalpha c \<or> isdigit c)"

section \<open>The token stream and its scanner (dsl.hpp, lines 52-138)\<close>

record TokenStream =
  tokens :: "Token list"
  pos :: nat
  string :: string
  lines :: "string list"
  lines_scan :: "nat list"

text \<open>
  The state of \<open>tokenize\<close>: the members of the stream it fills and its local variables.
  \<open>start\<close> and \<open>cur\<close> are offsets into \<open>string\<close>; \<open>line_c\<close> and \<open>col_c\<close> are the
  locals \<open>line\<close> and \<open>col\<close> (the token's fields have those names); the local \<open>end\<close>
  is \<open>length (string sc)\<close> throughout.
\<close>

record Scan = TokenStream +
  start :: nat
  cur :: nat
  line_c :: int
  col_c :: int

definition add_token :: "TokenType \<Rightarrow> nat \<Rightarrow> nat \<Rightarrow> Scan \<Rightarrow> Scan" where
  "add_token ty token_start token_end sc =
     sc\<lparr>tokens := tokens sc @
            [\<lparr>type = ty, value = \<lparr>begin = token_start, end = token_end\<rparr>,
              line = line_c sc, col = col_c sc\<rparr>],
        col_c := col_c sc + (int token_end - int token_start)\<rparr>"

text \<open>Line 87: \<open>while (cur < end && *cur != '\n') cur++;\<close>\<close>

function comment_loop :: "string \<Rightarrow> nat \<Rightarrow> nat" where
  "comment_loop s c =
     (if c < length s \<and> s ! c \<noteq> CHR 0x0A then comment_loop s (c + 1) else c)"
  by pat_completeness auto
termination
  by (relation "measure (\<lambda>(s, c). length s - c)") auto

text \<open>Lines 93-97: the body of a quoted string; a backslash skips the byte after it.\<close>

function string_loop :: "string \<Rightarrow> char \<Rightarrow> nat \<Rightarrow> nat" where
  "string_loop s quote c =
     (if c < length s \<and> s ! c \<noteq> quote
      then string_loop s quote ((if s ! c = CHR 0x5C \<and> c + 1 < length s then c + 1 else c) + 1)
      else c)"
  by pat_completeness auto
termination
  by (relation "measure (\<lambda>(s, quote, c). length s - c)") auto

text \<open>Lines 105-110: digits and at most one dot.\<close>

function number_loop :: "string \<Rightarrow> bool \<Rightarrow> nat \<Rightarrow> nat" where
  "number_loop s has_dot c =
     (if c < length s \<and> (isdigit (s ! c) \<or> (\<not> has_dot \<and> s ! c = CHR ''.''))
      then number_loop s (if s ! c = CHR ''.'' then True else has_dot) (c + 1)
      else c)"
  by pat_completeness auto
termination
  by (relation "measure (\<lambda>(s, has_dot, c). length s - c)") auto

text \<open>Lines 114-115: letters, digits and underscores.\<close>

function literal_loop :: "string \<Rightarrow> nat \<Rightarrow> nat" where
  "literal_loop s c =
     (if c < length s \<and> (isalnum (s ! c) \<or> s ! c = CHR ''_'') then literal_loop s (c + 1)
      else c)"
  by pat_completeness auto
termination
  by (relation "measure (\<lambda>(s, c). length s - c)") auto

declare comment_loop.simps [simp del] string_loop.simps [simp del]
  number_loop.simps [simp del] literal_loop.simps [simp del]

text \<open>
  Lines 119-129: the end of an operator that starts at \<open>op_start\<close>: one byte, or two.
\<close>

definition operator_end :: "string \<Rightarrow> nat \<Rightarrow> nat" where
  "operator_end s op_start =
     (let c = op_start + 1 in
      if c < length s \<and>
         (s ! op_start = CHR ''='' \<or> s ! op_start = CHR ''!'' \<or> s ! op_start = CHR ''<'' \<or>
          s ! op_start = CHR ''>'' \<or> s ! op_start = CHR ''&'' \<or> s ! op_start = CHR ''|'' \<or>
          s ! op_start = CHR ''+'' \<or> s ! op_start = CHR ''-'')
      then (if s ! c = CHR ''='' \<or> (s ! op_start = CHR ''&'' \<and> s ! c = CHR ''&'') \<or>
               (s ! op_start = CHR ''|'' \<and> s ! c = CHR ''|'')
            then c + 1 else c)
      else c)"

text \<open>
  One iteration of the loop of lines 74-132, entered with \<open>cur < end\<close>. The branches are
  the source's, in its order.
\<close>

definition tokenize_step :: "Scan \<Rightarrow> Scan" where
  "tokenize_step sc =
     (let s = string sc; e = length s; c = cur sc in
      if s ! c = CHR 0x0A then
        sc\<lparr>lines := lines sc @ [take (c - start sc) (drop (start sc) s)],
           lines_scan := lines_scan sc @ [start sc],
           start := c + 1, line_c := line_c sc + 1, col_c := 0, cur := c + 1\<rparr>
      else if isspace (s ! c) then
        sc\<lparr>cur := c + 1, col_c := col_c sc + 1\<rparr>
      else if s ! c = CHR ''/'' \<and> c + 1 < e \<and> s ! (c + 1) = CHR ''/'' then
        sc\<lparr>cur := comment_loop s c\<rparr>
      else if s ! c = CHR 0x22 \<or> s ! c = CHR 0x27 then
        (let quote = s ! c; str_start = c;
             c1 = string_loop s quote (c + 1);
             c2 = (if c1 < e then c1 + 1 else c1)
         in add_token STRING str_start c2 (sc\<lparr>cur := c2\<rparr>))
      else if isdigit (s ! c) \<or> (s ! c = CHR ''.'' \<and> c + 1 < e \<and> isdigit (s ! (c + 1))) then
        (let num_start = c; c1 = number_loop s False c
         in add_token NUMBER num_start c1 (sc\<lparr>cur := c1\<rparr>))
      else if isalpha (s ! c) \<or> s ! c = CHR ''_'' then
        (let id_start = c; c1 = literal_loop s c
         in add_token LITERAL id_start c1 (sc\<lparr>cur := c1\<rparr>))
      else
        (let op_start = c; c1 = operator_end s op_start
         in add_token OPERATOR op_start c1 (sc\<lparr>cur := c1\<rparr>)))"

subsection \<open>Every inner loop moves forward and stays inside the buffer\<close>

lemma comment_loop_ge: "c \<le> comment_loop s c"
proof (induction s c rule: comment_loop.induct)
  case (1 s c)
  show ?case
  proof (cases "c < length s \<and> s ! c \<noteq> CHR 0x0A")
    case True
    with 1 have "c + 1 \<le> comment_loop s (c + 1)" by simp
    with True show ?thesis by (subst comment_loop.simps) simp
  next
    case False
    then show ?thesis by (subst comment_loop.simps) auto
  qed
qed

lemma comment_loop_le: "c \<le> length s \<Longrightarrow> comment_loop s c \<le> length s"
proof (induction s c rule: comment_loop.induct)
  case (1 s c)
  show ?case
  proof (cases "c < length s \<and> s ! c \<noteq> CHR 0x0A")
    case True
    with 1 have "comment_loop s (c + 1) \<le> length s" by simp
    with True show ?thesis by (subst comment_loop.simps) simp
  next
    case False
    with 1 show ?thesis by (subst comment_loop.simps) auto
  qed
qed

lemma string_loop_ge: "c \<le> string_loop s quote c"
proof (induction s quote c rule: string_loop.induct)
  case (1 s quote c)
  define n where "n = (if s ! c = CHR 0x5C \<and> c + 1 < length s then c + 1 else c) + 1"
  show ?case
  proof (cases "c < length s \<and> s ! c \<noteq> quote")
    case True
    with 1 have "n \<le> string_loop s quote n"
      unfolding n_def by simp
    moreover have "string_loop s quote c = string_loop s quote n"
      unfolding n_def using True by (subst string_loop.simps) simp
    moreover have "c \<le> n"
      unfolding n_def by simp
    ultimately show ?thesis by linarith
  next
    case False
    then show ?thesis by (subst string_loop.simps) auto
  qed
qed

lemma string_loop_le: "c \<le> length s \<Longrightarrow> string_loop s quote c \<le> length s"
proof (induction s quote c rule: string_loop.induct)
  case (1 s quote c)
  show ?case
  proof (cases "c < length s \<and> s ! c \<noteq> quote")
    case True
    then have "(if s ! c = CHR 0x5C \<and> c + 1 < length s then c + 1 else c) + 1 \<le> length s"
      by auto
    with 1 True have "string_loop s quote
        ((if s ! c = CHR 0x5C \<and> c + 1 < length s then c + 1 else c) + 1) \<le> length s"
      by blast
    with True show ?thesis by (subst string_loop.simps) simp
  next
    case False
    with 1 show ?thesis by (subst string_loop.simps) auto
  qed
qed

lemma number_loop_ge: "c \<le> number_loop s has_dot c"
proof (induction s has_dot c rule: number_loop.induct)
  case (1 s has_dot c)
  show ?case
  proof (cases "c < length s \<and> (isdigit (s ! c) \<or> (\<not> has_dot \<and> s ! c = CHR ''.''))")
    case True
    with 1 have "c + 1 \<le> number_loop s (if s ! c = CHR ''.'' then True else has_dot) (c + 1)"
      by simp
    with True show ?thesis by (subst number_loop.simps) (simp del: One_nat_def)
  next
    case False
    then show ?thesis by (subst number_loop.simps) auto
  qed
qed

lemma number_loop_le: "c \<le> length s \<Longrightarrow> number_loop s has_dot c \<le> length s"
proof (induction s has_dot c rule: number_loop.induct)
  case (1 s has_dot c)
  show ?case
  proof (cases "c < length s \<and> (isdigit (s ! c) \<or> (\<not> has_dot \<and> s ! c = CHR ''.''))")
    case True
    with 1 have "number_loop s (if s ! c = CHR ''.'' then True else has_dot) (c + 1) \<le> length s"
      by simp
    with True show ?thesis by (subst number_loop.simps) (simp del: One_nat_def)
  next
    case False
    with 1 show ?thesis by (subst number_loop.simps) auto
  qed
qed

lemma literal_loop_ge: "c \<le> literal_loop s c"
proof (induction s c rule: literal_loop.induct)
  case (1 s c)
  show ?case
  proof (cases "c < length s \<and> (isalnum (s ! c) \<or> s ! c = CHR ''_'')")
    case True
    with 1 have "c + 1 \<le> literal_loop s (c + 1)" by simp
    with True show ?thesis by (subst literal_loop.simps) simp
  next
    case False
    then show ?thesis by (subst literal_loop.simps) auto
  qed
qed

lemma literal_loop_le: "c \<le> length s \<Longrightarrow> literal_loop s c \<le> length s"
proof (induction s c rule: literal_loop.induct)
  case (1 s c)
  show ?case
  proof (cases "c < length s \<and> (isalnum (s ! c) \<or> s ! c = CHR ''_'')")
    case True
    with 1 have "literal_loop s (c + 1) \<le> length s" by simp
    with True show ?thesis by (subst literal_loop.simps) simp
  next
    case False
    with 1 show ?thesis by (subst literal_loop.simps) auto
  qed
qed

lemma comment_loop_first:
  "c < length s \<Longrightarrow> s ! c \<noteq> CHR 0x0A \<Longrightarrow> comment_loop s c = comment_loop s (c + 1)"
  by (subst comment_loop.simps) simp

lemma number_loop_first:
  "c < length s \<Longrightarrow> isdigit (s ! c) \<or> s ! c = CHR ''.'' \<Longrightarrow>
   number_loop s False c = number_loop s (s ! c = CHR ''.'') (c + 1)"
  by (subst number_loop.simps) auto

lemma literal_loop_first:
  "c < length s \<Longrightarrow> isalnum (s ! c) \<or> s ! c = CHR ''_'' \<Longrightarrow>
   literal_loop s c = literal_loop s (c + 1)"
  by (subst literal_loop.simps) simp

lemma isalpha_isalnum: "isalpha c \<Longrightarrow> isalnum c"
  by (simp add: isalnum_def)

lemma operator_end_bounds:
  "c < length s \<Longrightarrow> c < operator_end s c \<and> operator_end s c \<le> length s"
  by (auto simp: operator_end_def Let_def)

lemma string_tokenize_step: "string (tokenize_step sc) = string sc"
  by (simp add: tokenize_step_def Let_def add_token_def)

lemma cur_add_token: "cur (add_token ty b e sc) = cur sc"
  by (simp add: add_token_def)

lemma cur_tokenize_step:
  assumes "cur sc < length (string sc)"
  shows "cur sc < cur (tokenize_step sc) \<and> cur (tokenize_step sc) \<le> length (string sc)"
proof -
  let ?s = "string sc" and ?c = "cur sc"
  have comment: "?c < comment_loop ?s ?c \<and> comment_loop ?s ?c \<le> length ?s"
    if "?s ! ?c \<noteq> CHR 0x0A"
    using that assms comment_loop_first [of ?c ?s] comment_loop_ge [of "?c + 1" ?s]
      comment_loop_le [of ?c ?s] by simp
  have str: "?c < (if string_loop ?s q (?c + 1) < length ?s then string_loop ?s q (?c + 1) + 1
                   else string_loop ?s q (?c + 1))
      \<and> (if string_loop ?s q (?c + 1) < length ?s then string_loop ?s q (?c + 1) + 1
                   else string_loop ?s q (?c + 1)) \<le> length ?s" for q
    using assms string_loop_ge [of "?c + 1" ?s q] string_loop_le [of "?c + 1" ?s q] by simp
  have num: "?c < number_loop ?s False ?c \<and> number_loop ?s False ?c \<le> length ?s"
    if "isdigit (?s ! ?c) \<or> ?s ! ?c = CHR ''.''"
    using that assms number_loop_first [of ?c ?s]
      number_loop_ge [of "?c + 1" ?s "?s ! ?c = CHR ''.''"] number_loop_le [of ?c ?s False]
    by simp
  have lit: "?c < literal_loop ?s ?c \<and> literal_loop ?s ?c \<le> length ?s"
    if "isalnum (?s ! ?c) \<or> ?s ! ?c = CHR ''_''"
    using that assms literal_loop_first [of ?c ?s] literal_loop_ge [of "?c + 1" ?s]
      literal_loop_le [of ?c ?s] by simp
  have op: "?c < operator_end ?s ?c \<and> operator_end ?s ?c \<le> length ?s"
    using assms by (rule operator_end_bounds)
  show ?thesis
    unfolding tokenize_step_def Let_def
    using assms comment str num lit op
    by (simp add: cur_add_token isalpha_isalnum)
qed

text \<open>Lines 74-132: \<open>while (cur < end) { ... }\<close>\<close>

function tokenize_loop :: "Scan \<Rightarrow> Scan" where
  "tokenize_loop sc =
     (if cur sc < length (string sc) then tokenize_loop (tokenize_step sc) else sc)"
  by pat_completeness auto
termination
proof (relation "measure (\<lambda>sc. length (string sc) - cur sc)")
  show "wf (measure (\<lambda>sc. length (string sc) - cur sc))" by simp
next
  fix sc :: Scan
  assume "cur sc < length (string sc)"
  from cur_tokenize_step [OF this]
  show "(tokenize_step sc, sc) \<in> measure (\<lambda>sc. length (string sc) - cur sc)"
    by (simp add: string_tokenize_step) linarith
qed

declare tokenize_loop.simps [simp del]

text \<open>
  \<open>tokenize()\<close>, lines 60-138: the locals start at the head of the buffer, the loop runs,
  and the last line goes into the line table when it is not empty.
\<close>

definition tokenize :: "TokenStream \<Rightarrow> TokenStream" where
  "tokenize this =
     (let sc = tokenize_loop
                 (TokenStream.extend this \<lparr>start = 0, cur = 0, line_c = 0, col_c = 0\<rparr>);
          s = string sc; e = length s;
          sc' = (if start sc < e
                 then sc\<lparr>lines := lines sc @ [take (e - start sc) (drop (start sc) s)],
                         lines_scan := lines_scan sc @ [start sc]\<rparr>
                 else sc)
      in TokenStream.truncate sc')"

text \<open>The constructor, lines 141-143.\<close>

definition TokenStream_new :: "string \<Rightarrow> TokenStream" where
  "TokenStream_new input =
     tokenize \<lparr>tokens = [], pos = 0, string = input, lines = [], lines_scan = []\<rparr>"

subsection \<open>The rule that takes a position, and the spans of a scan\<close>

text \<open>
  The conditions of the loop body, lines 75-117, in their order: the rule the scanner
  applies with \<open>cur\<close> at offset \<open>c\<close>. The first three rules emit no token.
\<close>

datatype rule =
  NewlineRule | WhitespaceRule | CommentRule | StringRule | NumberRule | LiteralRule
  | OperatorRule

definition rule_at :: "string \<Rightarrow> nat \<Rightarrow> rule" where
  "rule_at s c =
     (if s ! c = CHR 0x0A then NewlineRule
      else if isspace (s ! c) then WhitespaceRule
      else if s ! c = CHR ''/'' \<and> c + 1 < length s \<and> s ! (c + 1) = CHR ''/'' then CommentRule
      else if s ! c = CHR 0x22 \<or> s ! c = CHR 0x27 then StringRule
      else if isdigit (s ! c) \<or> (s ! c = CHR ''.'' \<and> c + 1 < length s \<and> isdigit (s ! (c + 1)))
      then NumberRule
      else if isalpha (s ! c) \<or> s ! c = CHR ''_'' then LiteralRule
      else OperatorRule)"

definition skips :: "rule \<Rightarrow> bool" where
  "skips r = (r = NewlineRule \<or> r = WhitespaceRule \<or> r = CommentRule)"

definition token_type_of :: "rule \<Rightarrow> TokenType" where
  "token_type_of r =
     (case r of StringRule \<Rightarrow> STRING | NumberRule \<Rightarrow> NUMBER | LiteralRule \<Rightarrow> LITERAL
      | _ \<Rightarrow> OPERATOR)"

lemma tokenize_step_skips:
  "skips (rule_at (string sc) (cur sc)) \<Longrightarrow> tokens (tokenize_step sc) = tokens sc"
  by (auto simp: skips_def rule_at_def tokenize_step_def Let_def split: if_splits)

lemma tokenize_step_emits:
  "\<not> skips (rule_at (string sc) (cur sc)) \<Longrightarrow>
   tokens (tokenize_step sc) = tokens sc @
     [\<lparr>type = token_type_of (rule_at (string sc) (cur sc)),
       value = \<lparr>begin = cur sc, end = cur (tokenize_step sc)\<rparr>,
       line = line_c sc, col = col_c sc\<rparr>]"
  by (auto simp: skips_def rule_at_def tokenize_step_def Let_def add_token_def token_type_of_def
      split: if_splits)

lemma tokenize_step_operator:
  "rule_at (string sc) (cur sc) = OperatorRule \<Longrightarrow>
   cur (tokenize_step sc) = operator_end (string sc) (cur sc)"
  by (auto simp: rule_at_def tokenize_step_def Let_def add_token_def split: if_splits)

lemma tokenize_step_string:
  "rule_at (string sc) (cur sc) = StringRule \<Longrightarrow>
   cur (tokenize_step sc) =
     (let c1 = string_loop (string sc) (string sc ! cur sc) (cur sc + 1)
      in if c1 < length (string sc) then c1 + 1 else c1)"
  by (auto simp: rule_at_def tokenize_step_def Let_def add_token_def split: if_splits)

text \<open>
  The iterations of the loop, in order: where \<open>cur\<close> was, where the iteration left it,
  and the tokens it appended. \<open>scan_start\<close> is the state \<open>tokenize\<close> starts with in the
  constructor.
\<close>

function scan_spans :: "Scan \<Rightarrow> (nat \<times> nat \<times> Token list) list" where
  "scan_spans sc =
     (if cur sc < length (string sc)
      then (cur sc, cur (tokenize_step sc),
            drop (length (tokens sc)) (tokens (tokenize_step sc))) # scan_spans (tokenize_step sc)
      else [])"
  by pat_completeness auto
termination
proof (relation "measure (\<lambda>sc. length (string sc) - cur sc)")
  show "wf (measure (\<lambda>sc. length (string sc) - cur sc))" by simp
next
  fix sc :: Scan
  assume "cur sc < length (string sc)"
  from cur_tokenize_step [OF this]
  show "(tokenize_step sc, sc) \<in> measure (\<lambda>sc. length (string sc) - cur sc)"
    by (simp add: string_tokenize_step) linarith
qed

declare scan_spans.simps [simp del]

definition scan_start :: "string \<Rightarrow> Scan" where
  "scan_start input =
     TokenStream.extend \<lparr>tokens = [], pos = 0, string = input, lines = [], lines_scan = []\<rparr>
       \<lparr>start = 0, cur = 0, line_c = 0, col_c = 0\<rparr>"

text \<open>
  \<open>contiguous p spans q\<close>: the spans are not empty, the first starts at \<open>p\<close>, each
  starts where the one before ended, and the last ends at \<open>q\<close>. \<open>span_text\<close> is the
  text of the buffer that a span covers.
\<close>

fun contiguous :: "nat \<Rightarrow> (nat \<times> nat \<times> 'a) list \<Rightarrow> nat \<Rightarrow> bool" where
  "contiguous p [] q = (p = q)"
| "contiguous p ((b, e, x) # xs) q = (b = p \<and> b < e \<and> contiguous e xs q)"

definition span_text :: "string \<Rightarrow> nat \<times> nat \<times> 'a \<Rightarrow> string" where
  "span_text s sp = (case sp of (b, e, x) \<Rightarrow> take (e - b) (drop b s))"

lemma take_drop_append: "b \<le> e \<Longrightarrow> take (e - b) (drop b s) @ drop e s = drop b s"
  by (metis add_diff_inverse_nat drop_drop append_take_drop_id add.commute not_less)

lemma string_scan_start: "string (scan_start input) = input" "cur (scan_start input) = 0"
  "tokens (scan_start input) = []"
  by (simp_all add: scan_start_def TokenStream.extend_def)

lemma tokens_tokenize: "tokens (TokenStream_new input) = tokens (tokenize_loop (scan_start input))"
  by (simp add: TokenStream_new_def tokenize_def Let_def scan_start_def TokenStream.truncate_def)

lemma step_new_tokens:
  "drop (length (tokens sc)) (tokens (tokenize_step sc)) =
     (if skips (rule_at (string sc) (cur sc)) then []
      else [\<lparr>type = token_type_of (rule_at (string sc) (cur sc)),
             value = \<lparr>begin = cur sc, end = cur (tokenize_step sc)\<rparr>,
             line = line_c sc, col = col_c sc\<rparr>])"
  by (simp add: tokenize_step_skips tokenize_step_emits)

lemma tokens_step_append:
  "tokens (tokenize_step sc) =
     tokens sc @ drop (length (tokens sc)) (tokens (tokenize_step sc))"
  by (cases "skips (rule_at (string sc) (cur sc))")
    (simp_all add: tokenize_step_skips tokenize_step_emits)

lemma scan_spans_text:
  "cur sc \<le> length (string sc) \<Longrightarrow>
   concat (map (span_text (string sc)) (scan_spans sc)) = drop (cur sc) (string sc)"
proof (induction sc rule: scan_spans.induct)
  case (1 sc)
  show ?case
  proof (cases "cur sc < length (string sc)")
    case False
    with "1.prems" show ?thesis by (subst scan_spans.simps) simp
  next
    case True
    from cur_tokenize_step [OF True]
    have adv: "cur sc < cur (tokenize_step sc)" "cur (tokenize_step sc) \<le> length (string sc)"
      by simp_all
    from "1.IH" [OF True] adv(2)
    have "concat (map (span_text (string sc)) (scan_spans (tokenize_step sc))) =
        drop (cur (tokenize_step sc)) (string sc)"
      by (simp add: string_tokenize_step)
    with True adv take_drop_append [of "cur sc" "cur (tokenize_step sc)" "string sc"]
    show ?thesis
      by (subst scan_spans.simps) (simp add: span_text_def)
  qed
qed

lemma scan_spans_contiguous:
  "cur sc \<le> length (string sc) \<Longrightarrow>
   contiguous (cur sc) (scan_spans sc) (length (string sc))"
proof (induction sc rule: scan_spans.induct)
  case (1 sc)
  show ?case
  proof (cases "cur sc < length (string sc)")
    case False
    with "1.prems" show ?thesis by (subst scan_spans.simps) simp
  next
    case True
    from cur_tokenize_step [OF True]
    have adv: "cur sc < cur (tokenize_step sc)" "cur (tokenize_step sc) \<le> length (string sc)"
      by simp_all
    from "1.IH" [OF True] adv(2)
    have "contiguous (cur (tokenize_step sc)) (scan_spans (tokenize_step sc))
        (length (string sc))"
      by (simp add: string_tokenize_step)
    with True adv show ?thesis
      by (subst scan_spans.simps) simp
  qed
qed

lemma scan_spans_tokens:
  "tokens (tokenize_loop sc) = tokens sc @ concat (map (\<lambda>(b, e, ts). ts) (scan_spans sc))"
proof (induction sc rule: scan_spans.induct)
  case (1 sc)
  show ?case
  proof (cases "cur sc < length (string sc)")
    case False
    then show ?thesis
      by (subst scan_spans.simps, subst tokenize_loop.simps) simp
  next
    case True
    from "1.IH" [OF True]
    have "tokens (tokenize_loop (tokenize_step sc)) =
        tokens (tokenize_step sc) @
        concat (map (\<lambda>(b, e, ts). ts) (scan_spans (tokenize_step sc)))" .
    moreover from True have "tokenize_loop sc = tokenize_loop (tokenize_step sc)"
      by (subst tokenize_loop.simps) simp
    moreover from True have "scan_spans sc =
        (cur sc, cur (tokenize_step sc),
         drop (length (tokens sc)) (tokens (tokenize_step sc))) # scan_spans (tokenize_step sc)"
      by (subst scan_spans.simps) simp
    ultimately show ?thesis
      using tokens_step_append [of sc] by simp
  qed
qed

text \<open>
  A span of the scan belongs to one rule, the rule at its first byte. Under a skipping
  rule it has no token; under any other it has one token, of the rule's kind, whose
  reference is the span.
\<close>

definition span_ok :: "string \<Rightarrow> nat \<times> nat \<times> Token list \<Rightarrow> bool" where
  "span_ok s sp =
     (case sp of (b, e, ts) \<Rightarrow>
        b < e \<and> e \<le> length s \<and>
        (if skips (rule_at s b) then ts = []
         else \<exists>t. ts = [t] \<and> begin (value t) = b \<and> end (value t) = e \<and>
                  type t = token_type_of (rule_at s b)))"

lemma scan_spans_ok:
  "sp \<in> set (scan_spans sc) \<Longrightarrow> span_ok (string sc) sp"
proof (induction sc rule: scan_spans.induct)
  case (1 sc)
  show ?case
  proof (cases "cur sc < length (string sc)")
    case False
    with "1.prems" show ?thesis by (subst (asm) scan_spans.simps) simp
  next
    case True
    from cur_tokenize_step [OF True]
    have adv: "cur sc < cur (tokenize_step sc)" "cur (tokenize_step sc) \<le> length (string sc)"
      by simp_all
    from "1.prems" True
    consider "sp = (cur sc, cur (tokenize_step sc),
         drop (length (tokens sc)) (tokens (tokenize_step sc)))"
      | "sp \<in> set (scan_spans (tokenize_step sc))"
      by (subst (asm) scan_spans.simps) auto
    then show ?thesis
    proof cases
      case 1
      with adv show ?thesis
        by (simp add: span_ok_def step_new_tokens)
    next
      case 2
      from "1.IH" [OF True 2] show ?thesis
        by (simp add: string_tokenize_step)
    qed
  qed
qed

text \<open>
  The spec's rule 4, read on the text after the opening quote: the text reaches the
  closing quote when it holds the quote character outside an escape, a backslash
  escaping the byte after it. \<open>string_loop_reaches\<close> compares it with the loop of the
  source.
\<close>

fun closing_quote_reached :: "char \<Rightarrow> string \<Rightarrow> bool" where
  "closing_quote_reached quote [] = False"
| "closing_quote_reached quote (x # xs) =
     (if x = quote then True
      else if x = CHR 0x5C then (case xs of [] \<Rightarrow> False | y # ys \<Rightarrow> closing_quote_reached quote ys)
      else closing_quote_reached quote xs)"

lemma string_loop_reaches:
  "(string_loop s quote c < length s) = closing_quote_reached quote (drop c s)"
proof (induction s quote c rule: string_loop.induct)
  case (1 s quote c)
  show ?case
  proof (cases "c < length s")
    case False
    then show ?thesis by (subst string_loop.simps) simp
  next
    case inside: True
    then have d: "drop c s = s ! c # drop (c + 1) s"
      by (simp add: Cons_nth_drop_Suc)
    show ?thesis
    proof (cases "s ! c = quote")
      case True
      with inside d show ?thesis by (subst string_loop.simps) simp
    next
      case other: False
      show ?thesis
      proof (cases "s ! c = CHR 0x5C \<and> c + 1 < length s")
        case True
        then have d2: "drop (c + 1) s = s ! (c + 1) # drop (c + 2) s"
          using Cons_nth_drop_Suc [of "c + 1" s] by simp
        from "1.IH" inside other True
        have "(string_loop s quote (c + 2) < length s) =
            closing_quote_reached quote (drop (c + 2) s)"
          by simp
        moreover from inside other True
        have "string_loop s quote c = string_loop s quote (c + 2)"
          by (subst string_loop.simps) simp
        ultimately show ?thesis using d d2 other True by simp
      next
        case False
        have n: "(if s ! c = CHR 0x5C \<and> c + 1 < length s then c + 1 else c) = c"
          by (simp only: False if_False)
        have ih: "(string_loop s quote (c + 1) < length s) =
            closing_quote_reached quote (drop (c + 1) s)"
          using "1.IH" [OF conjI [OF inside other], unfolded n] .
        from inside other
        have eq: "string_loop s quote c = string_loop s quote (c + 1)"
          by (subst string_loop.simps) (simp only: n if_True simp_thms)
        show ?thesis
        proof (cases "s ! c = CHR 0x5C")
          case True
          with False inside have "drop (c + 1) s = []" by simp
          with ih eq d other True show ?thesis by simp
        next
          case False
          with ih eq d other show ?thesis by simp
        qed
      qed
    qed
  qed
qed

lemma tokenize_loop_done: "\<not> cur sc < length (string sc) \<Longrightarrow> tokenize_loop sc = sc"
  by (subst tokenize_loop.simps) simp

lemma tokenize_loop_step:
  "cur sc < length (string sc) \<Longrightarrow> tokenize_loop sc = tokenize_loop (tokenize_step sc)"
  by (subst tokenize_loop.simps) simp

lemma escape_skips:
  assumes "c < length s" and "s ! c = CHR 0x5C" and "c + 1 < length s"
    and "quote = CHR 0x22 \<or> quote = CHR 0x27"
  shows "string_loop s quote c = string_loop s quote (c + 2)"
proof -
  from assms(2,4) have "s ! c \<noteq> quote" by auto
  with assms(1-3) show ?thesis by (subst string_loop.simps) simp
qed

lemma operator_end_eq:
  "c < length s \<Longrightarrow> operator_end s c = c +
     (if c + 1 < length s \<and>
         ((s ! c \<in> {CHR ''='', CHR ''!'', CHR ''<'', CHR ''>'', CHR ''&'', CHR ''|'', CHR ''+'',
                     CHR ''-''} \<and> s ! (c + 1) = CHR ''='') \<or>
          (s ! c = CHR ''&'' \<and> s ! (c + 1) = CHR ''&'') \<or>
          (s ! c = CHR ''|'' \<and> s ! (c + 1) = CHR ''|''))
      then 2 else 1)"
  by (auto simp: operator_end_def Let_def)

lemma scan_spans_operator:
  "(b, e, ts) \<in> set (scan_spans sc) \<Longrightarrow> rule_at (string sc) b = OperatorRule \<Longrightarrow>
   e = operator_end (string sc) b"
proof (induction sc rule: scan_spans.induct)
  case (1 sc)
  show ?case
  proof (cases "cur sc < length (string sc)")
    case False
    with "1.prems" show ?thesis by (subst (asm) scan_spans.simps) simp
  next
    case True
    from "1.prems"(1) True
    consider "b = cur sc \<and> e = cur (tokenize_step sc)"
      | "(b, e, ts) \<in> set (scan_spans (tokenize_step sc))"
      by (subst (asm) scan_spans.simps) auto
    then show ?thesis
    proof cases
      case 1
      with "1.prems"(2) show ?thesis
        by (simp add: tokenize_step_operator)
    next
      case 2
      from "1.IH" [OF True 2] "1.prems"(2) show ?thesis
        by (simp add: string_tokenize_step)
    qed
  qed
qed

lemma token_in_span:
  assumes "t \<in> set (tokens (TokenStream_new input))"
  obtains b e where "(b, e, [t]) \<in> set (scan_spans (scan_start input))"
    and "\<not> skips (rule_at input b)" and "begin (value t) = b" and "end (value t) = e"
    and "type t = token_type_of (rule_at input b)" and "b < length input"
proof -
  from assms have "t \<in> set (concat (map (\<lambda>(b, e, ts). ts) (scan_spans (scan_start input))))"
    by (simp add: tokens_tokenize scan_spans_tokens string_scan_start)
  then obtain b e ts where mem: "(b, e, ts) \<in> set (scan_spans (scan_start input))" and "t \<in> set ts"
    by auto
  from scan_spans_ok [OF mem] have ok: "span_ok input (b, e, ts)"
    by (simp add: string_scan_start)
  with \<open>t \<in> set ts\<close> have ns: "\<not> skips (rule_at input b)"
    by (auto simp: span_ok_def split: if_splits)
  with ok \<open>t \<in> set ts\<close> have "ts = [t]" "begin (value t) = b" "end (value t) = e"
    "type t = token_type_of (rule_at input b)" "b < length input"
    by (auto simp: span_ok_def)
  with mem ns that show ?thesis by blast
qed

section \<open>The cursor operations (dsl.hpp, lines 145-246)\<close>

text \<open>
  The operations are modelled as built with assertions on: a failed \<open>assert\<close> ends the
  program, and is the \<open>Inl\<close> result that names the assertion. An operation that moves
  the cursor returns the stream it leaves; a \<open>const\<close> operation returns its value only.
\<close>

datatype error =
    PeekPastEnd \<comment> \<open>Attempted to peek past end of token stream\<close>
  | ReadPastEnd \<comment> \<open>Attempted to read past end of token stream\<close>
  | ExpectedOpenParen \<comment> \<open>Expected '(' at the beginning of parentheses\<close>
  | ExpectedCloseParen \<comment> \<open>Expected ')' at the end of parentheses\<close>
  | ExpectedStartToken \<comment> \<open>Expected start token at the beginning\<close>
  | MoveBackBeforeBeginning
      \<comment> \<open>Attempted to move back before the beginning of the token stream\<close>
  | MoveForwardPastEnd \<comment> \<open>Attempted to move forward past the end of the token stream\<close>
  | InvalidLineNumber \<comment> \<open>Invalid line number\<close>

definition peek :: "TokenStream \<Rightarrow> error + Token" where
  "peek ts = (if pos ts < length (tokens ts) then Inr (tokens ts ! pos ts) else Inl PeekPastEnd)"

definition "next" :: "TokenStream \<Rightarrow> error + Token \<times> TokenStream" where
  "next ts =
     (if pos ts < length (tokens ts) then Inr (tokens ts ! pos ts, ts\<lparr>pos := pos ts + 1\<rparr>)
      else Inl ReadPastEnd)"

definition consume :: "string \<Rightarrow> TokenStream \<Rightarrow> bool \<times> TokenStream" where
  "consume s ts =
     (if pos ts < length (tokens ts) \<and> strref_eq (string ts) (value (tokens ts ! pos ts)) s
      then (True, ts\<lparr>pos := pos ts + 1\<rparr>)
      else (False, ts))"

lemma next_Inr:
  "next ts = Inr (t, ts') \<Longrightarrow>
   pos ts < length (tokens ts) \<and> t = tokens ts ! pos ts \<and> ts' = ts\<lparr>pos := pos ts + 1\<rparr>"
  by (auto simp: next_def split: if_splits)

lemma consume_cases:
  "consume s ts = (False, ts) \<or>
   (pos ts < length (tokens ts) \<and> consume s ts = (True, ts\<lparr>pos := pos ts + 1\<rparr>))"
  by (simp add: consume_def)

text \<open>
  The loop of \<open>get_list_until\<close>, lines 169-179, with \<open>result\<close> as its accumulator;
  \<open>consume_end\<close> is the parameter \<open>consume\<close>.
\<close>

function get_list_until_loop ::
  "string list \<Rightarrow> bool \<Rightarrow> Token list \<Rightarrow> TokenStream \<Rightarrow> error + Token list \<times> TokenStream"
where
  "get_list_until_loop end_tokens consume_end result ts =
     (if pos ts < length (tokens ts) then
        (let t = tokens ts ! pos ts in
         if list_ex (\<lambda>s. strref_eq (string ts) (value t) s) end_tokens
         then Inr (result, if consume_end then ts\<lparr>pos := pos ts + 1\<rparr> else ts)
         else (case next ts of
                 Inl err \<Rightarrow> Inl err
               | Inr (t', ts') \<Rightarrow> get_list_until_loop end_tokens consume_end (result @ [t']) ts'))
      else Inr (result, ts))"
  by pat_completeness auto
termination
  by (relation "measure (\<lambda>(end_tokens, consume_end, result, ts). length (tokens ts) - pos ts)")
    (auto dest!: next_Inr)

declare get_list_until_loop.simps [simp del]

definition get_list_until ::
  "string list \<Rightarrow> bool \<Rightarrow> TokenStream \<Rightarrow> error + Token list \<times> TokenStream" where
  "get_list_until end_tokens consume_end ts = get_list_until_loop end_tokens consume_end [] ts"

text \<open>
  \<open>unwrap_parentheses\<close>, lines 183-188. The call of line 185 leaves \<open>consume\<close> at its
  default, \<open>true\<close>.
\<close>

definition unwrap_parentheses :: "TokenStream \<Rightarrow> error + Token list \<times> TokenStream" where
  "unwrap_parentheses ts =
     (let (ok, ts1) = consume ''('' ts in
      if \<not> ok then Inl ExpectedOpenParen
      else (case get_list_until ['')''] True ts1 of
              Inl err \<Rightarrow> Inl err
            | Inr (result, ts2) \<Rightarrow>
                (let (ok', ts3) = consume '')'' ts2 in
                 if \<not> ok' then Inl ExpectedCloseParen else Inr (result, ts3))))"

text \<open>
  The loop of \<open>get_token_groups_in_between\<close>, lines 196-205. Its result carries
  \<open>current_group\<close> out of the loop for the flush of lines 206-208.
\<close>

function groups_loop ::
  "string \<Rightarrow> string \<Rightarrow> Token list list \<Rightarrow> Token list \<Rightarrow> TokenStream
     \<Rightarrow> error + Token list list \<times> Token list \<times> TokenStream"
where
  "groups_loop end_s separator groups current_group ts =
     (if pos ts < length (tokens ts) then
        (let (ended, ts1) = consume end_s ts in
         if ended then Inr (groups, current_group, ts1)
         else (let (sep, ts2) = consume separator ts1 in
               if sep then
                 (if current_group \<noteq> []
                  then groups_loop end_s separator (groups @ [current_group]) [] ts2
                  else groups_loop end_s separator groups current_group ts2)
               else (case next ts2 of
                       Inl err \<Rightarrow> Inl err
                     | Inr (t, ts3) \<Rightarrow>
                         groups_loop end_s separator groups (current_group @ [t]) ts3)))
      else Inr (groups, current_group, ts))"
  by pat_completeness auto
termination
proof (relation "measure (\<lambda>(end_s, separator, groups, current_group, ts).
                            length (tokens ts) - pos ts)", goal_cases)
  case 1
  show ?case by simp
next
  case (2 end_s separator groups current_group ts x ended ts1 y sep ts2)
  then show ?case
    using consume_cases [of end_s ts] consume_cases [of separator ts1] by auto
next
  case (3 end_s separator groups current_group ts x ended ts1 y sep ts2)
  then show ?case
    using consume_cases [of end_s ts] consume_cases [of separator ts1] by auto
next
  case (4 end_s separator groups current_group ts x ended ts1 y sep ts2 z t ts3)
  then show ?case
    using consume_cases [of end_s ts] consume_cases [of separator ts1] next_Inr [of ts2 t ts3]
    by auto
qed

declare groups_loop.simps [simp del]

definition get_token_groups_in_between ::
  "string \<Rightarrow> string \<Rightarrow> string \<Rightarrow> TokenStream \<Rightarrow> error + Token list list \<times> TokenStream" where
  "get_token_groups_in_between start_s end_s separator ts =
     (let (ok, ts1) = consume start_s ts in
      if \<not> ok then Inl ExpectedStartToken
      else (case groups_loop end_s separator [] [] ts1 of
              Inl err \<Rightarrow> Inl err
            | Inr (groups, current_group, ts2) \<Rightarrow>
                Inr (if current_group \<noteq> [] then groups @ [current_group] else groups, ts2)))"

definition has_more_tokens :: "TokenStream \<Rightarrow> bool" where
  "has_more_tokens ts = (pos ts < length (tokens ts))"

definition eof :: "TokenStream \<Rightarrow> bool" where
  "eof ts = (pos ts \<ge> length (tokens ts))"

definition move_back :: "TokenStream \<Rightarrow> error + TokenStream" where
  "move_back ts = (if pos ts > 0 then Inr (ts\<lparr>pos := pos ts - 1\<rparr>) else Inl MoveBackBeforeBeginning)"

definition move_forward :: "TokenStream \<Rightarrow> error + TokenStream" where
  "move_forward ts =
     (if pos ts < length (tokens ts) then Inr (ts\<lparr>pos := pos ts + 1\<rparr>)
      else Inl MoveForwardPastEnd)"

definition get_line :: "int \<Rightarrow> TokenStream \<Rightarrow> error + string" where
  "get_line line_number ts =
     (if line_number \<ge> 0 \<and> line_number < int (length (lines ts))
      then Inr (lines ts ! nat line_number)
      else Inl InvalidLineNumber)"

text \<open>
  \<open>operator<<\<close> of an \<open>int\<close>: its decimal digits, after a minus sign when it is
  negative.
\<close>

function show_nat :: "nat \<Rightarrow> string" where
  "show_nat n =
     (if n < 10 then [char_of (48 + n)] else show_nat (n div 10) @ [char_of (48 + n mod 10)])"
  by pat_completeness auto
termination
  by (relation "measure (\<lambda>n. n)") auto

declare show_nat.simps [simp del]

definition show_int :: "int \<Rightarrow> string" where
  "show_int i = (if i < 0 then CHR ''-'' # show_nat (nat (- i)) else show_nat (nat i))"

text \<open>
  \<open>print_error_at_current\<close>, lines 236-246: the value is the text written to
  \<open>std::cerr\<close>. The stream is \<open>const\<close> here. When the assertion of \<open>get_line\<close> fails
  the program ends, and what the first line had written is not kept.
\<close>

definition print_error_at_current :: "string \<Rightarrow> TokenStream \<Rightarrow> error + string" where
  "print_error_at_current message ts =
     (if pos ts < length (tokens ts) then
        (let token = tokens ts ! pos ts in
         case get_line (line token) ts of
           Inl err \<Rightarrow> Inl err
         | Inr l \<Rightarrow>
             Inr (''Error at line '' @ show_int (line token + 1) @ '', col '' @
                  show_int (col token) @ '': '' @ message @ [CHR 0x0A] @
                  l @ [CHR 0x0A] @
                  replicate (nat (col token)) (CHR 0x20) @ ''^'' @ [CHR 0x0A]))
      else Inr (''Error at end of file: '' @ message @ [CHR 0x0A]))"

subsection \<open>The cursor invariant and what an operation may change\<close>

text \<open>
  \<open>pos\<close> is a \<open>size_t\<close>, so its lower bound holds by its type; the upper bound is the
  invariant. \<open>moved ts ts'\<close>: the stream \<open>ts'\<close> is \<open>ts\<close> with its cursor moved
  forward, inside the tokens.
\<close>

definition cursor_inv :: "TokenStream \<Rightarrow> bool" where
  "cursor_inv ts = (0 \<le> int (pos ts) \<and> pos ts \<le> length (tokens ts))"

definition moved :: "TokenStream \<Rightarrow> TokenStream \<Rightarrow> bool" where
  "moved ts ts' =
     (tokens ts' = tokens ts \<and> string ts' = string ts \<and> lines ts' = lines ts \<and>
      lines_scan ts' = lines_scan ts \<and> pos ts \<le> pos ts' \<and> pos ts' \<le> length (tokens ts))"

lemma moved_step:
  "pos ts < length (tokens ts) \<Longrightarrow> moved (ts\<lparr>pos := pos ts + 1\<rparr>) ts' \<Longrightarrow> moved ts ts'"
  by (auto simp: moved_def)

lemma moved_trans: "moved a b \<Longrightarrow> moved b c \<Longrightarrow> moved a c"
  by (auto simp: moved_def)

lemma consume_moved: "pos ts \<le> length (tokens ts) \<Longrightarrow> moved ts (snd (consume s ts))"
  by (auto simp: consume_def moved_def)

lemma get_list_until_loop_moved:
  "get_list_until_loop E c r ts = Inr (r', ts') \<Longrightarrow> pos ts \<le> length (tokens ts) \<Longrightarrow> moved ts ts'"
proof (induction E c r ts rule: get_list_until_loop.induct)
  case (1 E c r ts)
  show ?case
  proof (cases "pos ts < length (tokens ts)")
    case False
    with "1.prems" show ?thesis
      by (subst (asm) get_list_until_loop.simps) (auto simp: moved_def)
  next
    case True
    show ?thesis
    proof (cases "list_ex (\<lambda>s. strref_eq (string ts) (value (tokens ts ! pos ts)) s) E")
      case hit: True
      with True "1.prems" show ?thesis
        by (subst (asm) get_list_until_loop.simps) (auto simp: moved_def split: if_splits)
    next
      case miss: False
      from True have nx: "next ts = Inr (tokens ts ! pos ts, ts\<lparr>pos := pos ts + 1\<rparr>)"
        by (simp add: next_def)
      from "1.prems"(1) True miss nx
      have rec: "get_list_until_loop E c (r @ [tokens ts ! pos ts]) (ts\<lparr>pos := pos ts + 1\<rparr>) = Inr (r', ts')"
        by (subst (asm) get_list_until_loop.simps) simp
      from True have "pos (ts\<lparr>pos := pos ts + 1\<rparr>) \<le> length (tokens (ts\<lparr>pos := pos ts + 1\<rparr>))"
        by simp
      from "1.IH" [OF True refl miss nx refl rec this]
      show ?thesis using True moved_step by blast
    qed
  qed
qed


lemma get_list_until_moved:
  "get_list_until E c ts = Inr (r', ts') \<Longrightarrow> pos ts \<le> length (tokens ts) \<Longrightarrow> moved ts ts'"
  unfolding get_list_until_def by (rule get_list_until_loop_moved)

text \<open>
  When \<open>get_list_until\<close> consumes the end token and leaves the cursor on a token, the
  token before the cursor is the end token it found.
\<close>

lemma get_list_until_loop_stop:
  "get_list_until_loop E True r ts = Inr (r', ts') \<Longrightarrow> pos ts' < length (tokens ts') \<Longrightarrow>
   0 < pos ts' \<and> list_ex (\<lambda>s. strref_eq (string ts) (value (tokens ts ! (pos ts' - 1))) s) E"
proof (induction E True r ts rule: get_list_until_loop.induct)
  case (1 E r ts)
  show ?case
  proof (cases "pos ts < length (tokens ts)")
    case False
    with "1.prems" show ?thesis
      by (subst (asm) get_list_until_loop.simps) auto
  next
    case True
    show ?thesis
    proof (cases "list_ex (\<lambda>s. strref_eq (string ts) (value (tokens ts ! pos ts)) s) E")
      case hit: True
      with True "1.prems"(1) have "ts' = ts\<lparr>pos := pos ts + 1\<rparr>"
        by (subst (asm) get_list_until_loop.simps) simp
      with hit show ?thesis by simp
    next
      case miss: False
      from True have nx: "next ts = Inr (tokens ts ! pos ts, ts\<lparr>pos := pos ts + 1\<rparr>)"
        by (simp add: next_def)
      from "1.prems"(1) True miss nx
      have rec: "get_list_until_loop E True (r @ [tokens ts ! pos ts]) (ts\<lparr>pos := pos ts + 1\<rparr>)
          = Inr (r', ts')"
        by (subst (asm) get_list_until_loop.simps) simp
      from "1.hyps" [OF True refl miss nx refl rec "1.prems"(2)]
      show ?thesis by simp
    qed
  qed
qed

lemma unwrap_parentheses_moved:
  assumes "unwrap_parentheses ts = Inr (r, ts')" and "pos ts \<le> length (tokens ts)"
  shows "moved ts ts'"
proof -
  obtain ok ts1 where c1: "consume ''('' ts = (ok, ts1)" by (cases "consume ''('' ts")
  with assms(1) obtain r2 ts2 where g: "get_list_until ['')''] True ts1 = Inr (r2, ts2)"
    by (auto simp: unwrap_parentheses_def split: if_splits sum.splits)
  obtain ok' ts3 where c3: "consume '')'' ts2 = (ok', ts3)" by (cases "consume '')'' ts2")
  from assms(1) c1 g c3 have eq: "ts' = ts3"
    by (auto simp: unwrap_parentheses_def split: if_splits)
  from consume_moved [OF assms(2), of "''(''"] c1 have m1: "moved ts ts1" by simp
  then have "pos ts1 \<le> length (tokens ts1)" by (simp add: moved_def)
  from get_list_until_moved [OF g this] have m2: "moved ts1 ts2" .
  then have "pos ts2 \<le> length (tokens ts2)" by (simp add: moved_def)
  from consume_moved [OF this, of "'')''"] c3 have m3: "moved ts2 ts3" by simp
  from m1 m2 m3 eq show ?thesis by (blast intro: moved_trans)
qed

lemma groups_loop_moved:
  "groups_loop e sep g cg ts = Inr (g', cg', ts') \<Longrightarrow> pos ts \<le> length (tokens ts) \<Longrightarrow>
   moved ts ts'"
proof (induction e sep g cg ts rule: groups_loop.induct)
  case (1 e sep g cg ts)
  show ?case
  proof (cases "pos ts < length (tokens ts)")
    case False
    with "1.prems" show ?thesis
      by (subst (asm) groups_loop.simps) (auto simp: moved_def)
  next
    case True
    obtain ended ts1 where c1: "consume e ts = (ended, ts1)" by (cases "consume e ts")
    from consume_moved [OF "1.prems"(2), of e] c1 have m1: "moved ts ts1" by simp
    then have b1: "pos ts1 \<le> length (tokens ts1)" by (simp add: moved_def)
    show ?thesis
    proof (cases ended)
      case True
      with \<open>pos ts < length (tokens ts)\<close> c1 "1.prems"(1) have "ts' = ts1"
        by (subst (asm) groups_loop.simps) simp
      with m1 show ?thesis by simp
    next
      case notended: False
      obtain sp ts2 where c2: "consume sep ts1 = (sp, ts2)" by (cases "consume sep ts1")
      from consume_moved [OF b1, of sep] c2 have m2: "moved ts1 ts2" by simp
      then have b2: "pos ts2 \<le> length (tokens ts2)" by (simp add: moved_def)
      show ?thesis
      proof (cases sp)
        case True
        show ?thesis
        proof (cases "cg \<noteq> []")
          case ne: True
          from "1.prems"(1) \<open>pos ts < length (tokens ts)\<close> c1 notended c2 True ne
          have "groups_loop e sep (g @ [cg]) [] ts2 = Inr (g', cg', ts')"
            by (subst (asm) groups_loop.simps) simp
          from "1.IH"(1) [OF \<open>pos ts < length (tokens ts)\<close> refl c1 [symmetric] notended
              refl c2 [symmetric] True ne this b2]
          show ?thesis using m1 m2 by (blast intro: moved_trans)
        next
          case emp: False
          from "1.prems"(1) \<open>pos ts < length (tokens ts)\<close> c1 notended c2 True emp
          have "groups_loop e sep g cg ts2 = Inr (g', cg', ts')"
            by (subst (asm) groups_loop.simps) simp
          from "1.IH"(2) [OF \<open>pos ts < length (tokens ts)\<close> refl c1 [symmetric] notended
              refl c2 [symmetric] True emp this b2]
          show ?thesis using m1 m2 by (blast intro: moved_trans)
        qed
      next
        case nosep: False
        from "1.prems"(1) \<open>pos ts < length (tokens ts)\<close> c1 notended c2 nosep
        obtain t ts3 where nx: "next ts2 = Inr (t, ts3)"
          and rec: "groups_loop e sep g (cg @ [t]) ts3 = Inr (g', cg', ts')"
          by (subst (asm) groups_loop.simps) (auto split: sum.splits)
        from next_Inr [OF nx] have m3: "moved ts2 ts3" by (auto simp: moved_def)
        then have b3: "pos ts3 \<le> length (tokens ts3)" by (simp add: moved_def)
        from "1.IH"(3) [OF \<open>pos ts < length (tokens ts)\<close> refl c1 [symmetric] notended
            refl c2 [symmetric] nosep nx refl rec b3]
        show ?thesis using m1 m2 m3 by (blast intro: moved_trans)
      qed
    qed
  qed
qed


lemma groups_loop_nonempty:
  "groups_loop e sep g cg ts = Inr (g', cg', ts') \<Longrightarrow> [] \<notin> set g \<Longrightarrow> [] \<notin> set g'"
proof (induction e sep g cg ts rule: groups_loop.induct)
  case (1 e sep g cg ts)
  show ?case
  proof (cases "pos ts < length (tokens ts)")
    case False
    with "1.prems" show ?thesis
      by (subst (asm) groups_loop.simps) auto
  next
    case inside: True
    obtain ended ts1 where c1: "consume e ts = (ended, ts1)" by (cases "consume e ts")
    obtain sp ts2 where c2: "consume sep ts1 = (sp, ts2)" by (cases "consume sep ts1")
    consider (stop) ended | (boundary) "\<not> ended" sp "cg \<noteq> []"
      | (repeat) "\<not> ended" sp "cg = []" | (take) "\<not> ended" "\<not> sp"
      by blast
    then show ?thesis
    proof cases
      case stop
      with inside c1 "1.prems" show ?thesis
        by (subst (asm) groups_loop.simps) simp
    next
      case boundary
      with "1.prems"(1) inside c1 c2
      have "groups_loop e sep (g @ [cg]) [] ts2 = Inr (g', cg', ts')"
        by (subst (asm) groups_loop.simps) simp
      moreover from boundary "1.prems"(2) have "[] \<notin> set (g @ [cg])" by auto
      ultimately show ?thesis
        using "1.IH"(1) [OF inside refl c1 [symmetric] boundary(1) refl c2 [symmetric]
            boundary(2) boundary(3)] by blast
    next
      case repeat
      with "1.prems"(1) inside c1 c2
      have "groups_loop e sep g cg ts2 = Inr (g', cg', ts')"
        by (subst (asm) groups_loop.simps) simp
      then show ?thesis
        using "1.IH"(2) [OF inside refl c1 [symmetric] repeat(1) refl c2 [symmetric] repeat(2)]
          repeat(3) "1.prems"(2) by blast
    next
      case take
      with "1.prems"(1) inside c1 c2
      obtain t ts3 where nx: "next ts2 = Inr (t, ts3)"
        and rec: "groups_loop e sep g (cg @ [t]) ts3 = Inr (g', cg', ts')"
        by (subst (asm) groups_loop.simps) (auto split: sum.splits)
      from "1.IH"(3) [OF inside refl c1 [symmetric] take(1) refl c2 [symmetric] take(2)
          nx refl rec "1.prems"(2)]
      show ?thesis .
    qed
  qed
qed

lemma get_token_groups_in_between_nonempty:
  assumes "get_token_groups_in_between start_s end_s separator ts = Inr (groups, ts')"
  shows "[] \<notin> set groups"
proof -
  obtain ok ts1 where c1: "consume start_s ts = (ok, ts1)" by (cases "consume start_s ts")
  with assms obtain g cg ts2 where
    loop: "groups_loop end_s separator [] [] ts1 = Inr (g, cg, ts2)" and
    res: "groups = (if cg \<noteq> [] then g @ [cg] else g)"
    by (auto simp: get_token_groups_in_between_def split: if_splits sum.splits)
  from groups_loop_nonempty [OF loop] have "[] \<notin> set g" by simp
  with res show ?thesis by auto
qed

lemma get_token_groups_in_between_moved:
  assumes "get_token_groups_in_between start_s end_s separator ts = Inr (groups, ts')"
    and "pos ts \<le> length (tokens ts)"
  shows "moved ts ts'"
proof -
  obtain ok ts1 where c1: "consume start_s ts = (ok, ts1)" by (cases "consume start_s ts")
  with assms(1) obtain g cg where
    loop: "groups_loop end_s separator [] [] ts1 = Inr (g, cg, ts')"
    by (auto simp: get_token_groups_in_between_def split: if_splits sum.splits)
  from consume_moved [OF assms(2), of start_s] c1 have m1: "moved ts ts1" by simp
  then have "pos ts1 \<le> length (tokens ts1)" by (simp add: moved_def)
  from groups_loop_moved [OF loop this] m1 show ?thesis by (blast intro: moved_trans)
qed

text \<open>
  The operations of the class, and the stream each leaves when it returns. A \<open>const\<close>
  operation leaves the stream it was called on.
\<close>

datatype operation =
    Peek | Next | Consume string | GetListUntil "string list" bool | UnwrapParentheses
  | GetTokenGroupsInBetween string string string | MoveBack | MoveForward | HasMoreTokens
  | Eof | GetLine int | PrintErrorAtCurrent string

fun stream_after :: "operation \<Rightarrow> TokenStream \<Rightarrow> error + TokenStream" where
  "stream_after Peek ts = (case peek ts of Inl err \<Rightarrow> Inl err | Inr t \<Rightarrow> Inr ts)"
| "stream_after Next ts = (case next ts of Inl err \<Rightarrow> Inl err | Inr (t, ts') \<Rightarrow> Inr ts')"
| "stream_after (Consume s) ts = (let (ok, ts') = consume s ts in Inr ts')"
| "stream_after (GetListUntil end_tokens consume_end) ts =
     (case get_list_until end_tokens consume_end ts of
        Inl err \<Rightarrow> Inl err | Inr (result, ts') \<Rightarrow> Inr ts')"
| "stream_after UnwrapParentheses ts =
     (case unwrap_parentheses ts of Inl err \<Rightarrow> Inl err | Inr (result, ts') \<Rightarrow> Inr ts')"
| "stream_after (GetTokenGroupsInBetween start_s end_s separator) ts =
     (case get_token_groups_in_between start_s end_s separator ts of
        Inl err \<Rightarrow> Inl err | Inr (groups, ts') \<Rightarrow> Inr ts')"
| "stream_after MoveBack ts = move_back ts"
| "stream_after MoveForward ts = move_forward ts"
| "stream_after HasMoreTokens ts = (let b = has_more_tokens ts in Inr ts)"
| "stream_after Eof ts = (let b = eof ts in Inr ts)"
| "stream_after (GetLine line_number) ts =
     (case get_line line_number ts of Inl err \<Rightarrow> Inl err | Inr l \<Rightarrow> Inr ts)"
| "stream_after (PrintErrorAtCurrent message) ts =
     (case print_error_at_current message ts of Inl err \<Rightarrow> Inl err | Inr out \<Rightarrow> Inr ts)"

lemma pos_tokenize_step: "pos (tokenize_step sc) = pos sc"
  by (simp add: tokenize_step_def Let_def add_token_def)

lemma pos_tokenize_loop: "pos (tokenize_loop sc) = pos sc"
proof (induction sc rule: tokenize_loop.induct)
  case (1 sc)
  then show ?case
    by (subst tokenize_loop.simps) (simp add: pos_tokenize_step)
qed

lemma pos_TokenStream_new: "pos (TokenStream_new input) = 0"
  by (simp add: TokenStream_new_def tokenize_def Let_def TokenStream.truncate_def
      TokenStream.extend_def pos_tokenize_loop)

lemma stream_after_keeps:
  assumes "cursor_inv ts" and "stream_after opn ts = Inr ts'"
  shows "cursor_inv ts' \<and> tokens ts' = tokens ts"
proof -
  from assms(1) have b: "pos ts \<le> length (tokens ts)" by (simp add: cursor_inv_def)
  have m: "cursor_inv x \<and> tokens x = tokens ts" if "moved ts x" for x
    using that by (simp add: moved_def cursor_inv_def)
  show ?thesis
  proof (cases opn)
    case Peek
    with assms show ?thesis by (auto split: sum.splits)
  next
    case Next
    with assms b show ?thesis
      by (auto simp: cursor_inv_def split: sum.splits dest!: next_Inr)
  next
    case (Consume s)
    with assms(2) have "ts' = snd (consume s ts)" by (auto split: prod.splits)
    with consume_moved [OF b, of s] m show ?thesis by simp
  next
    case (GetListUntil end_tokens consume_end)
    with assms(2) obtain r where "get_list_until end_tokens consume_end ts = Inr (r, ts')"
      by (auto split: sum.splits)
    from get_list_until_moved [OF this b] m show ?thesis by simp
  next
    case UnwrapParentheses
    with assms(2) obtain r where "unwrap_parentheses ts = Inr (r, ts')"
      by (auto split: sum.splits)
    from unwrap_parentheses_moved [OF this b] m show ?thesis by simp
  next
    case (GetTokenGroupsInBetween start_s end_s separator)
    with assms(2) obtain r where
      "get_token_groups_in_between start_s end_s separator ts = Inr (r, ts')"
      by (auto split: sum.splits)
    from get_token_groups_in_between_moved [OF this b] m show ?thesis by simp
  next
    case MoveBack
    with assms b show ?thesis
      by (auto simp: move_back_def cursor_inv_def split: if_splits)
  next
    case MoveForward
    with assms b show ?thesis
      by (auto simp: move_forward_def cursor_inv_def split: if_splits)
  next
    case HasMoreTokens
    with assms show ?thesis by (simp add: Let_def)
  next
    case Eof
    with assms show ?thesis by (simp add: Let_def)
  next
    case (GetLine line_number)
    with assms show ?thesis by (auto split: sum.splits)
  next
    case (PrintErrorAtCurrent message)
    with assms show ?thesis by (auto split: sum.splits)
  qed
qed

section \<open>Claims about the scanner\<close>

text \<open>
  C2 as stated: the input \<open>1.5.6\<close> gives three tokens, NUMBER \<open>1.5\<close>, OPERATOR \<open>.\<close>,
  NUMBER \<open>6\<close>. The scanner does not do that: the second dot is followed by a digit,
  and line 101 starts a number on a dot that a digit follows.
\<close>

theorem tokenize_1_5_6_not_three_tokens:
  "map (\<lambda>t. (type t, str ''1.5.6'' (value t))) (tokens (TokenStream_new ''1.5.6''))
     \<noteq> [(NUMBER, ''1.5''), (OPERATOR, ''.''), (NUMBER, ''6'')]"
  by code_simp

text \<open>
  C2, amended: the input \<open>1.5.6\<close> gives exactly two tokens, NUMBER \<open>1.5\<close> and then
  NUMBER \<open>.6\<close>. The number rule takes digits and one dot, the second dot ends the first
  token, and that dot with the digit after it is a number of its own.
\<close>

theorem tokenize_1_5_6:
  "map (\<lambda>t. (type t, str ''1.5.6'' (value t))) (tokens (TokenStream_new ''1.5.6''))
     = [(NUMBER, ''1.5''), (NUMBER, ''.6'')]"
  by code_simp

text \<open>
  C3 as stated: the input \<open>|=\<close> gives the two one-byte OPERATOR tokens \<open>|\<close> and \<open>=\<close>,
  \<open>|\<close> not being among the first bytes that \<open>=\<close> extends. The scanner does not do that:
  line 123 has \<open>|\<close> among them.
\<close>

theorem operator_pipe_eq_not_two_tokens:
  "map (\<lambda>t. (type t, str ''|='' (value t))) (tokens (TokenStream_new ''|=''))
     \<noteq> [(OPERATOR, ''|''), (OPERATOR, ''='')]"
  by code_simp

text \<open>
  C3, amended: at a position the operator rule takes, the token is an OPERATOR of one
  byte, or of two bytes exactly when a next byte exists and either the first byte is one
  of \<open>= ! < > & | + -\<close> and the next is \<open>=\<close>, or the two are \<open>&&\<close>, or the two are
  \<open>||\<close>; no OPERATOR token of any input is longer than two bytes; and the input \<open>|=\<close>
  gives the one OPERATOR token \<open>|=\<close>.
\<close>

theorem operator_rule_length:
  "(c < length s \<and> rule_at s c = OperatorRule \<and> string sc = s \<and> cur sc = c \<longrightarrow>
      tokens (tokenize_step sc) = tokens sc @
        [\<lparr>type = OPERATOR,
          value = \<lparr>begin = c, end = c +
            (if c + 1 < length s \<and>
                ((s ! c \<in> {CHR ''='', CHR ''!'', CHR ''<'', CHR ''>'', CHR ''&'', CHR ''|'',
                            CHR ''+'', CHR ''-''} \<and> s ! (c + 1) = CHR ''='') \<or>
                 (s ! c = CHR ''&'' \<and> s ! (c + 1) = CHR ''&'') \<or>
                 (s ! c = CHR ''|'' \<and> s ! (c + 1) = CHR ''|''))
             then 2 else 1)\<rparr>,
          line = line_c sc, col = col_c sc\<rparr>])
   \<and> (\<forall>t \<in> set (tokens (TokenStream_new input)).
        type t = OPERATOR \<longrightarrow> length_ref (value t) = 1 \<or> length_ref (value t) = 2)
   \<and> map (\<lambda>t. (type t, str ''|='' (value t))) (tokens (TokenStream_new ''|='')) =
        [(OPERATOR, ''|='')]"
proof (intro conjI impI ballI)
  assume a: "c < length s \<and> rule_at s c = OperatorRule \<and> string sc = s \<and> cur sc = c"
  then have "\<not> skips (rule_at (string sc) (cur sc))" by (simp add: skips_def)
  from tokenize_step_emits [OF this] a tokenize_step_operator [of sc] operator_end_eq [of c s]
  show "tokens (tokenize_step sc) = tokens sc @
        [\<lparr>type = OPERATOR,
          value = \<lparr>begin = c, end = c +
            (if c + 1 < length s \<and>
                ((s ! c \<in> {CHR ''='', CHR ''!'', CHR ''<'', CHR ''>'', CHR ''&'', CHR ''|'',
                            CHR ''+'', CHR ''-''} \<and> s ! (c + 1) = CHR ''='') \<or>
                 (s ! c = CHR ''&'' \<and> s ! (c + 1) = CHR ''&'') \<or>
                 (s ! c = CHR ''|'' \<and> s ! (c + 1) = CHR ''|''))
             then 2 else 1)\<rparr>,
          line = line_c sc, col = col_c sc\<rparr>]"
    by (simp add: token_type_of_def)
next
  fix t
  assume mem: "t \<in> set (tokens (TokenStream_new input))" and op: "type t = OPERATOR"
  from mem obtain b e where sp: "(b, e, [t]) \<in> set (scan_spans (scan_start input))"
    and ns: "\<not> skips (rule_at input b)" and be: "begin (value t) = b" "end (value t) = e"
    and ty: "type t = token_type_of (rule_at input b)" and b: "b < length input"
    by (rule token_in_span)
  from op ty ns have r: "rule_at input b = OperatorRule"
    by (cases "rule_at input b") (simp_all add: token_type_of_def skips_def)
  from scan_spans_operator [OF sp] r have "e = operator_end input b"
    by (simp add: string_scan_start)
  with b be operator_end_eq [of b input]
  show "length_ref (value t) = 1 \<or> length_ref (value t) = 2"
    by (simp add: length_ref_def split: if_splits)
next
  show "map (\<lambda>t. (type t, str ''|='' (value t))) (tokens (TokenStream_new ''|='')) =
        [(OPERATOR, ''|='')]"
    by code_simp
qed

text \<open>
  The witness: the operator rule at the head of \<open><=1\<close>, and the operators of \<open>a<=-1\<close>.
\<close>

theorem operator_rule_length_witness:
  "(0::nat) < length ''<=1'' \<and> rule_at ''<=1'' 0 = OperatorRule \<and>
   string (scan_start ''<=1'') = ''<=1'' \<and> cur (scan_start ''<=1'') = 0 \<and>
   tokens (tokenize_step (scan_start ''<=1'')) =
     [\<lparr>type = OPERATOR, value = \<lparr>begin = 0, end = 2\<rparr>, line = 0, col = 0\<rparr>] \<and>
   map (\<lambda>t. (type t, length_ref (value t))) (tokens (TokenStream_new ''a<=-1'')) =
     [(LITERAL, 1), (OPERATOR, 2), (OPERATOR, 1), (NUMBER, 1)] \<and>
   list_all (\<lambda>t. type t \<noteq> OPERATOR \<or> length_ref (value t) = 1 \<or> length_ref (value t) = 2)
     (tokens (TokenStream_new ''a<=-1''))"
proof -
  have s: "string (scan_start ''<=1'') = ''<=1''" "cur (scan_start ''<=1'') = 0"
    "tokens (scan_start ''<=1'') = []" "line_c (scan_start ''<=1'') = 0"
    "col_c (scan_start ''<=1'') = 0"
    by (simp_all add: scan_start_def TokenStream.extend_def)
  have r: "rule_at ''<=1'' 0 = OperatorRule" by code_simp
  have h: "(0::nat) < length ''<=1'' \<and> rule_at ''<=1'' 0 = OperatorRule \<and>
      string (scan_start ''<=1'') = ''<=1'' \<and> cur (scan_start ''<=1'') = 0"
    using r s by simp
  have m: "map (\<lambda>t. (type t, length_ref (value t))) (tokens (TokenStream_new ''a<=-1'')) =
     [(LITERAL, 1), (OPERATOR, 2), (OPERATOR, 1), (NUMBER, 1)]"
    by code_simp
  from operator_rule_length [of 0 "''<=1''" "scan_start ''<=1''" "''a<=-1''"] h m
  show ?thesis by (simp add: s list_all_iff)
qed

text \<open>
  C4: for every input the spans of the scan, in order, give back the input: their texts
  concatenate to it, they are contiguous from 0 to its length and none is empty, so no
  byte is lost or taken twice; each span belongs to one rule and is either skipped
  (newline, whitespace, comment) or the reference of the one token it emitted; and the
  emitted tokens, in order, are the tokens of the stream. The scan is a total function
  with no failing branch.
\<close>

theorem tokenize_reconstructs_input:
  "concat (map (span_text input) (scan_spans (scan_start input))) = input
   \<and> contiguous 0 (scan_spans (scan_start input)) (length input)
   \<and> concat (map (\<lambda>(b, e, ts). ts) (scan_spans (scan_start input))) =
       tokens (TokenStream_new input)
   \<and> (\<forall>sp \<in> set (scan_spans (scan_start input)). span_ok input sp)"
proof (intro conjI ballI)
  show "concat (map (span_text input) (scan_spans (scan_start input))) = input"
    using scan_spans_text [of "scan_start input"] by (simp add: string_scan_start)
  show "contiguous 0 (scan_spans (scan_start input)) (length input)"
    using scan_spans_contiguous [of "scan_start input"] by (simp add: string_scan_start)
  show "concat (map (\<lambda>(b, e, ts). ts) (scan_spans (scan_start input))) =
      tokens (TokenStream_new input)"
    by (simp add: tokens_tokenize scan_spans_tokens string_scan_start)
next
  fix sp
  assume "sp \<in> set (scan_spans (scan_start input))"
  from scan_spans_ok [OF this] show "span_ok input sp"
    by (simp add: string_scan_start)
qed

text \<open>
  The witness: an identifier, a blank, a comment, a newline, a blank and an unterminated
  string.
\<close>

theorem tokenize_reconstructs_input_witness:
  "scan_spans (scan_start (''a //c'' @ [CHR 0x0A] @ '' 'x'')) =
     [(0, 1, [\<lparr>type = LITERAL, value = \<lparr>begin = 0, end = 1\<rparr>, line = 0, col = 0\<rparr>]),
      (1, 2, []), (2, 5, []), (5, 6, []), (6, 7, []),
      (7, 9, [\<lparr>type = STRING, value = \<lparr>begin = 7, end = 9\<rparr>, line = 1, col = 1\<rparr>])]
   \<and> concat (map (span_text (''a //c'' @ [CHR 0x0A] @ '' 'x''))
        (scan_spans (scan_start (''a //c'' @ [CHR 0x0A] @ '' 'x'')))) =
       ''a //c'' @ [CHR 0x0A] @ '' 'x''
   \<and> contiguous 0 (scan_spans (scan_start (''a //c'' @ [CHR 0x0A] @ '' 'x'')))
        (length (''a //c'' @ [CHR 0x0A] @ '' 'x''))
   \<and> concat (map (\<lambda>(b, e, ts). ts) (scan_spans (scan_start (''a //c'' @ [CHR 0x0A] @ '' 'x'')))) =
       tokens (TokenStream_new (''a //c'' @ [CHR 0x0A] @ '' 'x''))
   \<and> list_all (span_ok (''a //c'' @ [CHR 0x0A] @ '' 'x''))
        (scan_spans (scan_start (''a //c'' @ [CHR 0x0A] @ '' 'x'')))"
proof -
  have run: "scan_spans (scan_start (''a //c'' @ [CHR 0x0A] @ '' 'x'')) =
     [(0, 1, [\<lparr>type = LITERAL, value = \<lparr>begin = 0, end = 1\<rparr>, line = 0, col = 0\<rparr>]),
      (1, 2, []), (2, 5, []), (5, 6, []), (6, 7, []),
      (7, 9, [\<lparr>type = STRING, value = \<lparr>begin = 7, end = 9\<rparr>, line = 1, col = 1\<rparr>])]"
    by code_simp
  from tokenize_reconstructs_input [of "''a //c'' @ [CHR 0x0A] @ '' 'x''"] run
  show ?thesis unfolding list_all_iff by blast
qed

text \<open>
  C5: when the scanner stands on an opening quote and the text after it never reaches the
  closing quote of the same character, the scan ends with one more token, a STRING from
  the opening quote to the end of the input. No error is raised: the scan has no failing
  branch.
\<close>

theorem unterminated_string_runs_to_end:
  assumes "cur sc < length (string sc)"
    and "rule_at (string sc) (cur sc) = StringRule"
    and "\<not> closing_quote_reached (string sc ! cur sc) (drop (cur sc + 1) (string sc))"
  shows "tokens (tokenize_loop sc) = tokens sc @
     [\<lparr>type = STRING, value = \<lparr>begin = cur sc, end = length (string sc)\<rparr>,
       line = line_c sc, col = col_c sc\<rparr>]"
proof -
  let ?s = "string sc"
  from assms(3) have "\<not> string_loop ?s (?s ! cur sc) (cur sc + 1) < length ?s"
    by (simp add: string_loop_reaches)
  moreover from assms(1) have "string_loop ?s (?s ! cur sc) (cur sc + 1) \<le> length ?s"
    by (simp add: string_loop_le)
  ultimately have e: "string_loop ?s (?s ! cur sc) (cur sc + 1) = length ?s" by simp
  with assms(2) have c: "cur (tokenize_step sc) = length ?s"
    by (simp add: tokenize_step_string)
  then have "tokenize_loop (tokenize_step sc) = tokenize_step sc"
    by (simp add: tokenize_loop_done string_tokenize_step)
  with assms(1) have "tokenize_loop sc = tokenize_step sc"
    by (simp add: tokenize_loop_step)
  moreover from assms(2) have "\<not> skips (rule_at ?s (cur sc))" by (simp add: skips_def)
  ultimately show ?thesis
    using assms(2) c by (simp add: tokenize_step_emits token_type_of_def)
qed

text \<open>
  The witness: a double quote, \<open>ab\<close>, and an escaped double quote, which does not close
  the string.
\<close>

theorem unterminated_string_runs_to_end_witness:
  "cur (scan_start [CHR 0x22, CHR ''a'', CHR ''b'', CHR 0x5C, CHR 0x22])
     < length (string (scan_start [CHR 0x22, CHR ''a'', CHR ''b'', CHR 0x5C, CHR 0x22])) \<and>
   rule_at [CHR 0x22, CHR ''a'', CHR ''b'', CHR 0x5C, CHR 0x22] 0 = StringRule \<and>
   \<not> closing_quote_reached (CHR 0x22) [CHR ''a'', CHR ''b'', CHR 0x5C, CHR 0x22] \<and>
   tokens (TokenStream_new [CHR 0x22, CHR ''a'', CHR ''b'', CHR 0x5C, CHR 0x22]) =
     [\<lparr>type = STRING, value = \<lparr>begin = 0, end = 5\<rparr>, line = 0, col = 0\<rparr>]"
proof -
  let ?s = "[CHR 0x22, CHR ''a'', CHR ''b'', CHR 0x5C, CHR 0x22]"
  have s: "string (scan_start ?s) = ?s" "cur (scan_start ?s) = 0" "tokens (scan_start ?s) = []"
    "line_c (scan_start ?s) = 0" "col_c (scan_start ?s) = 0"
    by (simp_all add: scan_start_def TokenStream.extend_def)
  have h1: "cur (scan_start ?s) < length (string (scan_start ?s))"
    by (simp add: s)
  have r: "rule_at ?s 0 = StringRule"
    by code_simp
  then have h2: "rule_at (string (scan_start ?s)) (cur (scan_start ?s)) = StringRule"
    by (simp add: s)
  have q: "\<not> closing_quote_reached (CHR 0x22) [CHR ''a'', CHR ''b'', CHR 0x5C, CHR 0x22]"
    by simp
  then have h3: "\<not> closing_quote_reached (string (scan_start ?s) ! cur (scan_start ?s))
      (drop (cur (scan_start ?s) + 1) (string (scan_start ?s)))"
    by (simp add: s)
  from unterminated_string_runs_to_end [OF h1 h2 h3] h1 r q
  show ?thesis by (simp add: s tokens_tokenize)
qed

text \<open>
  C9: inside a quoted string a backslash that a byte follows takes the loop past that
  byte unread, so an escaped quote does not end the string; and the six bytes
  double quote, \<open>a\<close>, backslash, double quote, \<open>b\<close>, double quote give one STRING token
  whose text is all six.
\<close>

theorem escaped_quote_does_not_close:
  "(c < length s \<and> s ! c = CHR 0x5C \<and> c + 1 < length s \<and> (quote = CHR 0x22 \<or> quote = CHR 0x27)
      \<longrightarrow> string_loop s quote c = string_loop s quote (c + 2))
   \<and> tokens (TokenStream_new [CHR 0x22, CHR ''a'', CHR 0x5C, CHR 0x22, CHR ''b'', CHR 0x22]) =
       [\<lparr>type = STRING, value = \<lparr>begin = 0, end = 6\<rparr>, line = 0, col = 0\<rparr>]
   \<and> str [CHR 0x22, CHR ''a'', CHR 0x5C, CHR 0x22, CHR ''b'', CHR 0x22] \<lparr>begin = 0, end = 6\<rparr> =
       [CHR 0x22, CHR ''a'', CHR 0x5C, CHR 0x22, CHR ''b'', CHR 0x22]"
proof (intro conjI impI)
  assume "c < length s \<and> s ! c = CHR 0x5C \<and> c + 1 < length s \<and>
    (quote = CHR 0x22 \<or> quote = CHR 0x27)"
  then show "string_loop s quote c = string_loop s quote (c + 2)"
    using escape_skips by blast
next
  show "tokens (TokenStream_new [CHR 0x22, CHR ''a'', CHR 0x5C, CHR 0x22, CHR ''b'', CHR 0x22]) =
       [\<lparr>type = STRING, value = \<lparr>begin = 0, end = 6\<rparr>, line = 0, col = 0\<rparr>]"
    by code_simp
  show "str [CHR 0x22, CHR ''a'', CHR 0x5C, CHR 0x22, CHR ''b'', CHR 0x22] \<lparr>begin = 0, end = 6\<rparr> =
       [CHR 0x22, CHR ''a'', CHR 0x5C, CHR 0x22, CHR ''b'', CHR 0x22]"
    by code_simp
qed

text \<open>
  The witness: in those six bytes the loop at the backslash (offset 2) goes on as from
  offset 4, past the quote at offset 3, and stops at the closing quote at offset 5.
\<close>

theorem escaped_quote_does_not_close_witness:
  "(2::nat) < length [CHR 0x22, CHR ''a'', CHR 0x5C, CHR 0x22, CHR ''b'', CHR 0x22] \<and>
   [CHR 0x22, CHR ''a'', CHR 0x5C, CHR 0x22, CHR ''b'', CHR 0x22] ! 2 = CHR 0x5C \<and>
   [CHR 0x22, CHR ''a'', CHR 0x5C, CHR 0x22, CHR ''b'', CHR 0x22] ! 3 = CHR 0x22 \<and>
   string_loop [CHR 0x22, CHR ''a'', CHR 0x5C, CHR 0x22, CHR ''b'', CHR 0x22] (CHR 0x22) 2 =
     string_loop [CHR 0x22, CHR ''a'', CHR 0x5C, CHR 0x22, CHR ''b'', CHR 0x22] (CHR 0x22) 4 \<and>
   string_loop [CHR 0x22, CHR ''a'', CHR 0x5C, CHR 0x22, CHR ''b'', CHR 0x22] (CHR 0x22) 4 = 5"
proof -
  let ?s = "[CHR 0x22, CHR ''a'', CHR 0x5C, CHR 0x22, CHR ''b'', CHR 0x22]"
  have h: "(2::nat) < length ?s \<and> ?s ! 2 = CHR 0x5C \<and> (2::nat) + 1 < length ?s \<and>
      (CHR 0x22 = CHR 0x22 \<or> CHR 0x22 = CHR 0x27)"
    by simp
  have e: "string_loop ?s (CHR 0x22) 4 = 5" by code_simp
  from escaped_quote_does_not_close [of 2 ?s "CHR 0x22"] h
  have "string_loop ?s (CHR 0x22) 2 = string_loop ?s (CHR 0x22) (2 + 2)" by blast
  with e show ?thesis by simp
qed

text \<open>
  C10: no token of any input has the kind SPECIAL; every token is a NUMBER, a LITERAL,
  a STRING or an OPERATOR.
\<close>

theorem tokenize_never_special:
  "\<forall>t \<in> set (tokens (TokenStream_new input)).
     type t \<noteq> SPECIAL \<and> type t \<in> {NUMBER, LITERAL, STRING, OPERATOR}"
proof
  fix t
  assume "t \<in> set (tokens (TokenStream_new input))"
  then obtain b where "type t = token_type_of (rule_at input b)"
    by (rule token_in_span)
  then show "type t \<noteq> SPECIAL \<and> type t \<in> {NUMBER, LITERAL, STRING, OPERATOR}"
    by (cases "rule_at input b") (simp_all add: token_type_of_def)
qed

text \<open>The witness: an input with one token of each of the four kinds.\<close>

theorem tokenize_never_special_witness:
  "map type (tokens (TokenStream_new ''x = 1.5 'a' '')) = [LITERAL, OPERATOR, NUMBER, STRING] \<and>
   list_all (\<lambda>t. type t \<noteq> SPECIAL \<and> type t \<in> {NUMBER, LITERAL, STRING, OPERATOR})
     (tokens (TokenStream_new ''x = 1.5 'a' ''))"
proof -
  have "map type (tokens (TokenStream_new ''x = 1.5 'a' '')) = [LITERAL, OPERATOR, NUMBER, STRING]"
    by code_simp
  with tokenize_never_special [of "''x = 1.5 'a' ''"] show ?thesis
    unfolding list_all_iff by blast
qed

section \<open>Claims about the cursor operations\<close>

text \<open>
  C1: on the stream of \<open>(a, b)\<close> with the cursor at 0, \<open>unwrap_parentheses\<close> is to
  return the tokens \<open>a\<close>, \<open>,\<close>, \<open>b\<close> and leave the cursor at the end of the stream.
  The code ends in a failed assertion there: \<open>get_list_until\<close> has consumed the closing
  parenthesis (its \<open>consume\<close> defaults to \<open>true\<close>), so the \<open>consume(")")\<close> of line
  186 finds the end of the stream.
\<close>

theorem unwrap_parentheses_a_b:
  "unwrap_parentheses (TokenStream_new ''(a, b)'') = Inl ExpectedCloseParen"
  by code_simp

text \<open>
  What line 185 has computed when line 186 fails: the three tokens of the claim, with the
  cursor at 5, the end of the stream.
\<close>

lemma get_list_until_a_b:
  "get_list_until ['')''] True (snd (consume ''('' (TokenStream_new ''(a, b)''))) =
     Inr ([\<lparr>type = LITERAL, value = \<lparr>begin = 1, end = 2\<rparr>, line = 0, col = 1\<rparr>,
           \<lparr>type = OPERATOR, value = \<lparr>begin = 2, end = 3\<rparr>, line = 0, col = 2\<rparr>,
           \<lparr>type = LITERAL, value = \<lparr>begin = 4, end = 5\<rparr>, line = 0, col = 4\<rparr>],
          (TokenStream_new ''(a, b)'')\<lparr>pos := 5\<rparr>)
   \<and> length (tokens (TokenStream_new ''(a, b)'')) = 5"
  by code_simp

text \<open>
  The other half of C1 holds: with the cursor not on a \<open>(\<close> token, the assertion of line
  184 fails.
\<close>

lemma unwrap_parentheses_not_on_paren:
  "\<not> (pos ts < length (tokens ts) \<and> strref_eq (string ts) (value (tokens ts ! pos ts)) ''('')
   \<Longrightarrow> unwrap_parentheses ts = Inl ExpectedOpenParen"
  by (auto simp: unwrap_parentheses_def consume_def)

text \<open>
  Whenever \<open>unwrap_parentheses\<close> returns, the stream held two \<open>)\<close> tokens in a row and
  the cursor is past both: the first ended the list, the second satisfied line 186.
\<close>

lemma unwrap_parentheses_returns:
  assumes "unwrap_parentheses ts = Inr (r, ts')"
  shows "2 \<le> pos ts' \<and> pos ts' \<le> length (tokens ts) \<and>
    strref_eq (string ts) (value (tokens ts ! (pos ts' - 2))) '')'' \<and>
    strref_eq (string ts) (value (tokens ts ! (pos ts' - 1))) '')''"
proof -
  obtain ok ts1 where c1: "consume ''('' ts = (ok, ts1)" by (cases "consume ''('' ts")
  with assms have ok and g0: "\<exists>r2 ts2. get_list_until ['')''] True ts1 = Inr (r2, ts2)"
    by (auto simp: unwrap_parentheses_def split: if_splits sum.splits)
  then obtain r2 ts2 where g: "get_list_until ['')''] True ts1 = Inr (r2, ts2)" by blast
  obtain ok' ts3 where c3: "consume '')'' ts2 = (ok', ts3)" by (cases "consume '')'' ts2")
  from assms c1 g c3 \<open>ok\<close> have ok' and eq: "ts' = ts3"
    by (auto simp: unwrap_parentheses_def split: if_splits)
  from c1 \<open>ok\<close> have b: "pos ts < length (tokens ts)" and t1: "ts1 = ts\<lparr>pos := pos ts + 1\<rparr>"
    by (auto simp: consume_def split: if_splits)
  then have b1: "pos ts1 \<le> length (tokens ts1)" by simp
  from get_list_until_moved [OF g b1] have m: "moved ts1 ts2" .
  from c3 \<open>ok'\<close> have b2: "pos ts2 < length (tokens ts2)"
    and here: "strref_eq (string ts2) (value (tokens ts2 ! pos ts2)) '')''"
    and t3: "ts3 = ts2\<lparr>pos := pos ts2 + 1\<rparr>"
    by (auto simp: consume_def split: if_splits)
  from get_list_until_loop_stop [OF g [unfolded get_list_until_def] b2]
  have before: "0 < pos ts2" "strref_eq (string ts1) (value (tokens ts1 ! (pos ts2 - 1))) '')''"
    by simp_all
  from m t1 have same: "tokens ts2 = tokens ts" "string ts2 = string ts" "pos ts1 \<le> pos ts2"
    by (simp_all add: moved_def)
  with t1 have "1 \<le> pos ts2" by simp
  with before here b2 same t1 t3 eq show ?thesis by simp
qed

text \<open>
  C6: on the stream of \<open>(a, b, )\<close> with the cursor on the \<open>(\<close>,
  \<open>get_token_groups_in_between "(" ")" ","\<close> returns the two groups \<open>[a]\<close> and \<open>[b]\<close>;
  and whatever the stream and the three texts, no group it returns is empty.
\<close>

theorem get_token_groups_in_between_no_empty_group:
  "get_token_groups_in_between ''('' '')'' '','' (TokenStream_new ''(a, b, )'') =
     Inr ([[\<lparr>type = LITERAL, value = \<lparr>begin = 1, end = 2\<rparr>, line = 0, col = 1\<rparr>],
           [\<lparr>type = LITERAL, value = \<lparr>begin = 4, end = 5\<rparr>, line = 0, col = 4\<rparr>]],
          (TokenStream_new ''(a, b, )'')\<lparr>pos := 6\<rparr>)
   \<and> str ''(a, b, )'' \<lparr>begin = 1, end = 2\<rparr> = ''a''
   \<and> str ''(a, b, )'' \<lparr>begin = 4, end = 5\<rparr> = ''b''
   \<and> (get_token_groups_in_between start_s end_s separator ts = Inr (groups, ts')
        \<longrightarrow> [] \<notin> set groups)"
proof (intro conjI impI)
  show "get_token_groups_in_between ''('' '')'' '','' (TokenStream_new ''(a, b, )'') =
     Inr ([[\<lparr>type = LITERAL, value = \<lparr>begin = 1, end = 2\<rparr>, line = 0, col = 1\<rparr>],
           [\<lparr>type = LITERAL, value = \<lparr>begin = 4, end = 5\<rparr>, line = 0, col = 4\<rparr>]],
          (TokenStream_new ''(a, b, )'')\<lparr>pos := 6\<rparr>)"
    by code_simp
  show "str ''(a, b, )'' \<lparr>begin = 1, end = 2\<rparr> = ''a''" by code_simp
  show "str ''(a, b, )'' \<lparr>begin = 4, end = 5\<rparr> = ''b''" by code_simp
next
  assume "get_token_groups_in_between start_s end_s separator ts = Inr (groups, ts')"
  then show "[] \<notin> set groups" by (rule get_token_groups_in_between_nonempty)
qed

text \<open>
  The witness: leading, doubled and trailing separators, and a stream that ends before
  the end text. The groups are \<open>[a, b]\<close> and \<open>[c]\<close>.
\<close>

theorem get_token_groups_in_between_no_empty_group_witness:
  "get_token_groups_in_between ''('' '')'' '','' (TokenStream_new ''(,,a b,,c,'') =
     Inr ([[\<lparr>type = LITERAL, value = \<lparr>begin = 3, end = 4\<rparr>, line = 0, col = 3\<rparr>,
            \<lparr>type = LITERAL, value = \<lparr>begin = 5, end = 6\<rparr>, line = 0, col = 5\<rparr>],
           [\<lparr>type = LITERAL, value = \<lparr>begin = 8, end = 9\<rparr>, line = 0, col = 8\<rparr>]],
          (TokenStream_new ''(,,a b,,c,'')\<lparr>pos := 9\<rparr>)
   \<and> [] \<notin> set [[\<lparr>type = LITERAL, value = \<lparr>begin = 3, end = 4\<rparr>, line = 0, col = 3\<rparr>,
            \<lparr>type = LITERAL, value = \<lparr>begin = 5, end = 6\<rparr>, line = 0, col = 5\<rparr>],
           [\<lparr>type = LITERAL, value = \<lparr>begin = 8, end = 9\<rparr>, line = 0, col = 8\<rparr>]]"
proof -
  have run: "get_token_groups_in_between ''('' '')'' '','' (TokenStream_new ''(,,a b,,c,'') =
     Inr ([[\<lparr>type = LITERAL, value = \<lparr>begin = 3, end = 4\<rparr>, line = 0, col = 3\<rparr>,
            \<lparr>type = LITERAL, value = \<lparr>begin = 5, end = 6\<rparr>, line = 0, col = 5\<rparr>],
           [\<lparr>type = LITERAL, value = \<lparr>begin = 8, end = 9\<rparr>, line = 0, col = 8\<rparr>]],
          (TokenStream_new ''(,,a b,,c,'')\<lparr>pos := 9\<rparr>)"
    by code_simp
  from get_token_groups_in_between_no_empty_group
    [of "''(''" "'')''" "'',''" "TokenStream_new ''(,,a b,,c,''" _
      "(TokenStream_new ''(,,a b,,c,'')\<lparr>pos := 9\<rparr>"] run
  show ?thesis by blast
qed

text \<open>
  C7: the cursor stays between 0 and the number of tokens: after construction, and after
  every operation that returns, from a stream where it held; the cursor at the number of
  tokens is the end of the stream; and no operation changes the tokens.
\<close>

theorem cursor_invariant:
  "cursor_inv (TokenStream_new input) \<and>
   (cursor_inv ts \<and> stream_after opn ts = Inr ts' \<longrightarrow> cursor_inv ts' \<and> tokens ts' = tokens ts) \<and>
   (cursor_inv ts \<longrightarrow> eof ts = (pos ts = length (tokens ts)))"
proof (intro conjI impI)
  show "cursor_inv (TokenStream_new input)"
    by (simp add: cursor_inv_def pos_TokenStream_new)
next
  assume "cursor_inv ts \<and> stream_after opn ts = Inr ts'"
  then show "cursor_inv ts'" and "tokens ts' = tokens ts"
    using stream_after_keeps by blast+
next
  assume "cursor_inv ts"
  then show "eof ts = (pos ts = length (tokens ts))"
    by (auto simp: eof_def cursor_inv_def)
qed

text \<open>The witness: \<open>next\<close> on the stream of \<open>a b\<close>, fresh from its constructor.\<close>

theorem cursor_invariant_witness:
  "cursor_inv (TokenStream_new ''a b'') \<and>
   stream_after Next (TokenStream_new ''a b'') = Inr ((TokenStream_new ''a b'')\<lparr>pos := 1\<rparr>) \<and>
   cursor_inv ((TokenStream_new ''a b'')\<lparr>pos := 1\<rparr>) \<and>
   tokens ((TokenStream_new ''a b'')\<lparr>pos := 1\<rparr>) = tokens (TokenStream_new ''a b'') \<and>
   eof (TokenStream_new ''a b'') = (pos (TokenStream_new ''a b'') = length (tokens (TokenStream_new ''a b'')))"
proof -
  have run: "stream_after Next (TokenStream_new ''a b'') = Inr ((TokenStream_new ''a b'')\<lparr>pos := 1\<rparr>)"
    by code_simp
  from cursor_invariant [of "''a b''" "TokenStream_new ''a b''" Next "(TokenStream_new ''a b'')\<lparr>pos := 1\<rparr>"] run
  show ?thesis by blast
qed

text \<open>
  C8: with the cursor on a token, \<open>next\<close> and then \<open>move_back\<close> both return, the cursor
  (and the whole stream) is as before \<open>next\<close>, and \<open>peek\<close> then returns the token
  \<open>next\<close> returned.
\<close>

theorem next_move_back_peek:
  assumes "pos ts < length (tokens ts)"
  shows "\<exists>t ts1 ts2. next ts = Inr (t, ts1) \<and> move_back ts1 = Inr ts2 \<and> pos ts2 = pos ts \<and>
           ts2 = ts \<and> peek ts2 = Inr t"
  using assms by (simp add: next_def move_back_def peek_def)

text \<open>The witness: the stream of \<open>a b\<close> with its cursor at 0.\<close>

theorem next_move_back_peek_witness:
  "pos (TokenStream_new ''a b'') < length (tokens (TokenStream_new ''a b'')) \<and>
   (\<exists>t ts1 ts2. next (TokenStream_new ''a b'') = Inr (t, ts1) \<and> move_back ts1 = Inr ts2 \<and>
      pos ts2 = pos (TokenStream_new ''a b'') \<and> ts2 = TokenStream_new ''a b'' \<and> peek ts2 = Inr t)"
proof -
  have h: "pos (TokenStream_new ''a b'') < length (tokens (TokenStream_new ''a b''))"
    by code_simp
  from next_move_back_peek [OF h] h show ?thesis by blast
qed

end
